theory Spec2Isabelle
  imports Complex_Main "HOL-Library.Sublist"
begin

section \<open>Python values used by the Annotator\<close>

text \<open>
  A Python \<open>str\<close> is modelled as an Isabelle \<open>string\<close>: a list of characters whose code
  points are below 256. Python's \<open>int\<close> is \<open>int\<close>. Every \<open>raise\<close> of the interpreter that
  the annotator can reach is a constructor of \<open>error\<close>, and a function that may raise
  returns \<open>error + 'a\<close>.
\<close>

datatype error =
    ValueError_int_digits
  | ValueError_not_in_list
  | ValueError_max_empty
  | OverflowError
  | ZeroDivisionError
  | IndexError

definition ebind :: "error + 'a \<Rightarrow> ('a \<Rightarrow> error + 'b) \<Rightarrow> error + 'b" where
  "ebind m f = (case m of Inl e \<Rightarrow> Inl e | Inr v \<Rightarrow> f v)"

subsection \<open>Character classes\<close>

definition is_space :: "char \<Rightarrow> bool" where
  \<comment> \<open>\<open>str.isspace\<close> and the regex class \<open>\s\<close> on code points below 256\<close>
  "is_space c = ((of_char c :: nat) \<in> {9, 10, 11, 12, 13, 28, 29, 30, 31, 32, 133, 160})"

definition is_linebreak :: "char \<Rightarrow> bool" where
  \<comment> \<open>the line boundaries of \<open>str.splitlines\<close> on code points below 256\<close>
  "is_linebreak c = ((of_char c :: nat) \<in> {10, 11, 12, 13, 28, 29, 30, 133})"

definition is_digit :: "char \<Rightarrow> bool" where
  \<comment> \<open>the regex class \<open>\d\<close> on code points below 256\<close>
  "is_digit c = ((of_char c :: nat) \<in> {48..57})"

definition is_dot :: "char \<Rightarrow> bool" where
  \<comment> \<open>the regex \<open>.\<close> without DOTALL: anything but a line feed\<close>
  "is_dot c = ((of_char c :: nat) \<noteq> 10)"

definition ascii_lower :: "char \<Rightarrow> char" where
  "ascii_lower c = (if (of_char c :: nat) \<in> {65..90} then char_of ((of_char c :: nat) + 32) else c)"

subsection \<open>String methods\<close>

fun splitlines :: "string \<Rightarrow> string list" where
  "splitlines [] = []"
| "splitlines [c] = (if is_linebreak c then [[]] else [[c]])"
| "splitlines (c # d # cs) =
     (if c = CHR 0x0D \<and> d = CHR 0x0A then [] # splitlines cs
      else if is_linebreak c then [] # splitlines (d # cs)
      else (case splitlines (d # cs) of [] \<Rightarrow> [[c]] | l # ls \<Rightarrow> (c # l) # ls))"

fun startswith :: "string \<Rightarrow> string \<Rightarrow> bool" where
  \<comment> \<open>\<open>startswith s p\<close> is Python's \<open>s.startswith(p)\<close>\<close>
  "startswith s [] = True"
| "startswith [] (p # ps) = False"
| "startswith (c # cs) (p # ps) = (c = p \<and> startswith cs ps)"

definition endswith :: "string \<Rightarrow> string \<Rightarrow> bool" where
  "endswith s p = startswith (rev s) (rev p)"

fun contains :: "string \<Rightarrow> string \<Rightarrow> bool" where
  \<comment> \<open>\<open>contains s p\<close> is Python's \<open>p in s\<close>\<close>
  "contains [] p = (p = [])"
| "contains (c # cs) p = (startswith (c # cs) p \<or> contains cs p)"

definition rstrip :: "string \<Rightarrow> string" where
  "rstrip s = rev (dropWhile is_space (rev s))"

definition strip_nonempty :: "string \<Rightarrow> bool" where
  \<comment> \<open>the truth value of \<open>l.strip()\<close>\<close>
  "strip_nonempty l = (\<exists>c \<in> set l. \<not> is_space c)"

definition drop_last :: "nat \<Rightarrow> string \<Rightarrow> string" where
  \<comment> \<open>the slice \<open>line[:-k]\<close> for \<open>k > 0\<close>\<close>
  "drop_last k s = take (length s - k) s"

fun join_lines :: "string list \<Rightarrow> string" where
  \<comment> \<open>\<open>"\n".join(ls)\<close>\<close>
  "join_lines [] = []"
| "join_lines [l] = l"
| "join_lines (l # ls) = l @ CHR 0x0A # join_lines ls"

subsection \<open>Integers and their decimal text\<close>

definition digit_val :: "char \<Rightarrow> nat" where
  "digit_val c = (of_char c :: nat) - 48"

definition nat_of_digits :: "string \<Rightarrow> nat" where
  "nat_of_digits ds = foldl (\<lambda>a c. 10 * a + digit_val c) 0 ds"

definition py_int :: "nat \<Rightarrow> string \<Rightarrow> error + int" where
  \<comment> \<open>\<open>int(ds)\<close> on a non-empty string of decimal digits. \<open>maxd\<close> is the interpreter's
      \<open>sys.get_int_max_str_digits()\<close>: 0 switches the limit off (as before Python 3.11),
      the default is 4300, and a string of at most 640 digits is never refused.\<close>
  "py_int maxd ds =
     (if 0 < maxd \<and> 640 < length ds \<and> maxd < length ds then Inl ValueError_int_digits
      else Inr (int (nat_of_digits ds)))"

fun str_nat :: "nat \<Rightarrow> string" where
  "str_nat n = (if n < 10 then [char_of (48 + n)] else str_nat (n div 10) @ [char_of (48 + n mod 10)])"

declare str_nat.simps [simp del]

definition str_int :: "int \<Rightarrow> string" where
  \<comment> \<open>\<open>str(i)\<close>, which is what an f-string field \<open>{i}\<close> renders\<close>
  "str_int i = (if i < 0 then CHR ''-'' # str_nat (nat (- i)) else str_nat (nat i))"

section \<open>The regular expression\<close>

text \<open>
  \<open>START_FINISH_RE\<close> is built from case-insensitive literals and repetitions of a
  character class, two of them capturing. A pattern is a list of such items, and \<open>re_match\<close>
  is the backtracking matcher of Python's \<open>re\<close> on them: a greedy repetition tries the longest
  run first, a lazy one the shortest first, and the first alternative for which the rest of
  the pattern matches wins. \<open>re_search\<close> tries every start position from the left.
\<close>

datatype re_item =
    Lit string
  | Rep "char \<Rightarrow> bool" nat bool bool

fun match_lit :: "string \<Rightarrow> string \<Rightarrow> string option" where
  "match_lit [] s = Some s"
| "match_lit (p # ps) [] = None"
| "match_lit (p # ps) (c # cs) = (if ascii_lower c = p then match_lit ps cs else None)"

fun first_some :: "('a \<Rightarrow> 'b option) \<Rightarrow> 'a list \<Rightarrow> 'b option" where
  "first_some f [] = None"
| "first_some f (x # xs) = (case f x of Some y \<Rightarrow> Some y | None \<Rightarrow> first_some f xs)"

fun re_match :: "re_item list \<Rightarrow> string \<Rightarrow> string list \<Rightarrow> string list option" where
  "re_match [] s caps = Some caps"
| "re_match (Lit l # items) s caps =
     (case match_lit l s of None \<Rightarrow> None | Some r \<Rightarrow> re_match items r caps)"
| "re_match (Rep cls lo greedy capture # items) s caps =
     (let n = length (takeWhile cls s);
          ks = (if greedy then rev [lo ..< Suc n] else [lo ..< Suc n])
      in first_some (\<lambda>k. re_match items (drop k s) (if capture then caps @ [take k s] else caps)) ks)"

fun re_search :: "re_item list \<Rightarrow> string \<Rightarrow> string list option" where
  "re_search items [] = re_match items [] []"
| "re_search items (c # cs) =
     (case re_match items (c # cs) [] of Some caps \<Rightarrow> Some caps | None \<Rightarrow> re_search items cs)"

definition START_FINISH_RE :: "re_item list" where
  \<comment> \<open>\<open>starts\s+at\s*(\d+)\s*ms.*?finishes\s+at\s*(\d+)\s*ms\<close> with \<open>re.IGNORECASE\<close>\<close>
  "START_FINISH_RE =
     [Lit ''starts'', Rep is_space 1 True False, Lit ''at'', Rep is_space 0 True False,
      Rep is_digit 1 True True, Rep is_space 0 True False, Lit ''ms'',
      Rep is_dot 0 False False,
      Lit ''finishes'', Rep is_space 1 True False, Lit ''at'', Rep is_space 0 True False,
      Rep is_digit 1 True True, Rep is_space 0 True False, Lit ''ms'']"


section \<open>Floating point\<close>

text \<open>
  A Python \<open>float\<close> is an IEEE binary64 number. The annotator only forms non-negative
  finite ones, so a float is modelled by the rational number it denotes. \<open>round_frac a b\<close>
  is the double nearest to \<open>a / b\<close> (ties to even): 53 significant bits, and multiples of
  \<open>2 ^ -1074\<close> in the subnormal range. A result of magnitude \<open>2 ^ 1024\<close> or more after
  rounding is an overflow.
\<close>

fun bitlen :: "nat \<Rightarrow> nat" where
  "bitlen n = (if n = 0 then 0 else Suc (bitlen (n div 2)))"

declare bitlen.simps [simp del]

definition pow2 :: "int \<Rightarrow> rat" where
  "pow2 e = (if 0 \<le> e then 2 ^ nat e else 1 / 2 ^ nat (- e))"

definition ilog2_frac :: "nat \<Rightarrow> nat \<Rightarrow> int" where
  \<comment> \<open>the integer \<open>k\<close> with \<open>2 ^ k \<le> a / b < 2 ^ (k + 1)\<close>, for positive \<open>a\<close> and \<open>b\<close>\<close>
  "ilog2_frac a b =
     (let d = int (bitlen a) - int (bitlen b)
      in if of_nat b * pow2 d \<le> (of_nat a :: rat) then d else d - 1)"

definition round_half_even :: "rat \<Rightarrow> int" where
  "round_half_even x =
     (let f = \<lfloor>x\<rfloor>; r = x - of_int f
      in if r < 1 / 2 then f else if 1 / 2 < r then f + 1 else if even f then f else f + 1)"

definition round_frac :: "nat \<Rightarrow> nat \<Rightarrow> rat" where
  "round_frac a b =
     (if a = 0 then 0
      else let e = max (ilog2_frac a b - 52) (- 1074)
           in of_int (round_half_even (of_nat a / (of_nat b * pow2 e))) * pow2 e)"

definition fexp :: "nat \<Rightarrow> nat \<Rightarrow> int" where
  \<comment> \<open>the exponent of the last place of the double nearest to \<open>a / b\<close>\<close>
  "fexp a b = max (ilog2_frac a b - 52) (- 1074)"

definition round_double :: "rat \<Rightarrow> rat" where
  \<comment> \<open>the double nearest to a non-negative rational\<close>
  "round_double x = (case quotient_of x of (p, q) \<Rightarrow> round_frac (nat p) (nat q))"

definition to_float :: "rat \<Rightarrow> error + rat" where
  "to_float x = (if 2 ^ 1024 \<le> x then Inl OverflowError else Inr x)"

definition py_truediv :: "int \<Rightarrow> int \<Rightarrow> error + rat" where
  \<comment> \<open>\<open>a / b\<close> on two non-negative ints: the correctly rounded quotient\<close>
  "py_truediv a b =
     (if b = 0 then Inl ZeroDivisionError else to_float (round_frac (nat a) (nat b)))"

definition py_float_of_int :: "int \<Rightarrow> error + rat" where
  \<comment> \<open>the conversion of a non-negative int operand to float\<close>
  "py_float_of_int n = to_float (round_frac (nat n) 1)"

definition py_float_mul :: "rat \<Rightarrow> rat \<Rightarrow> error + rat" where
  "py_float_mul x y = to_float (round_double (x * y))"

definition float_095 :: rat where
  \<comment> \<open>the double that the literal \<open>0.95\<close> denotes\<close>
  "float_095 = 8556839292003942 / 2 ^ 53"

definition py_int_of_float :: "rat \<Rightarrow> int" where
  \<comment> \<open>\<open>int(x)\<close> on a non-negative float: truncation\<close>
  "py_int_of_float x = \<lfloor>x\<rfloor>"

definition py_ceil :: "rat \<Rightarrow> int" where
  \<comment> \<open>\<open>math.ceil(x)\<close>\<close>
  "py_ceil x = \<lceil>x\<rceil>"

section \<open>The Annotator\<close>

subsection \<open>List operations that can raise\<close>

definition py_max :: "int list \<Rightarrow> error + int" where
  "py_max xs = (case xs of [] \<Rightarrow> Inl ValueError_max_empty | x # ys \<Rightarrow> Inr (foldl max x ys))"

fun index_from :: "int \<Rightarrow> int list \<Rightarrow> int \<Rightarrow> error + int" where
  "index_from i [] v = Inl ValueError_not_in_list"
| "index_from i (x # xs) v = (if x = v then Inr i else index_from (i + 1) xs v)"

definition py_index :: "int list \<Rightarrow> int \<Rightarrow> error + int" where
  \<comment> \<open>\<open>xs.index(v)\<close>\<close>
  "py_index xs v = index_from 0 xs v"

definition py_getitem :: "int list \<Rightarrow> int \<Rightarrow> error + int" where
  \<comment> \<open>the subscription \<open>xs[i]\<close>; \<open>xs[-k]\<close> is the \<open>k\<close>-th item from the end\<close>
  "py_getitem xs i =
     (if 0 \<le> i \<and> i < int (length xs) then Inr (xs ! nat i)
      else if i < 0 \<and> - int (length xs) \<le> i then Inr (xs ! nat (int (length xs) + i))
      else Inl IndexError)"

subsection \<open>The scan of the lines\<close>

record scan =
  sc_durations :: "int list"
  sc_earliest :: "int option"
  sc_latest :: "int option"
  sc_lines :: "string list"

definition scan_init :: scan where
  "scan_init = \<lparr>sc_durations = [], sc_earliest = None, sc_latest = None, sc_lines = []\<rparr>"

definition is_candidate :: "string \<Rightarrow> bool" where
  "is_candidate line =
     (startswith line ''['' \<and> contains line ''starts at'' \<and> contains line ''finishes at'')"

definition rewrite_line :: "string \<Rightarrow> int \<Rightarrow> string" where
  "rewrite_line line dur =
     (if endswith (rstrip line) ''].''
        then drop_last 2 line @ '', duration='' @ str_int dur @ '' ms].''
      else if endswith (rstrip line) '']''
        then drop_last 1 line @ '', duration='' @ str_int dur @ '' ms]''
      else line @ '' (duration='' @ str_int dur @ '' ms)'')"

definition scan_match :: "nat \<Rightarrow> scan \<Rightarrow> string \<Rightarrow> string list \<Rightarrow> error + scan" where
  \<comment> \<open>the body of \<open>if m:\<close>, followed by the append to \<open>ann_lines\<close>\<close>
  "scan_match maxd st line caps =
     (case caps of
        g1 # g2 # _ \<Rightarrow>
          ebind (py_int maxd g1) (\<lambda>s.
          ebind (py_int maxd g2) (\<lambda>f.
            let dur = max 0 (f - s)
            in Inr \<lparr>sc_durations = sc_durations st @ [dur],
                    sc_earliest = Some (case sc_earliest st of None \<Rightarrow> s | Some e \<Rightarrow> min e s),
                    sc_latest = Some (case sc_latest st of None \<Rightarrow> f | Some l \<Rightarrow> max l f),
                    sc_lines = sc_lines st @ [rewrite_line line dur]\<rparr>))
      | _ \<Rightarrow> Inl IndexError)"

definition scan_line :: "nat \<Rightarrow> scan \<Rightarrow> string \<Rightarrow> error + scan" where
  "scan_line maxd st line =
     (if is_candidate line then
        (case re_search START_FINISH_RE line of
           Some caps \<Rightarrow> scan_match maxd st line caps
         | None \<Rightarrow> Inr (st\<lparr>sc_lines := sc_lines st @ [line]\<rparr>))
      else Inr (st\<lparr>sc_lines := sc_lines st @ [line]\<rparr>))"

fun scan_lines :: "nat \<Rightarrow> scan \<Rightarrow> string list \<Rightarrow> error + scan" where
  "scan_lines maxd st [] = Inr st"
| "scan_lines maxd st (l # ls) =
     (case scan_line maxd st l of Inl e \<Rightarrow> Inl e | Inr st' \<Rightarrow> scan_lines maxd st' ls)"

subsection \<open>The statistics\<close>

record annot =
  durations :: "int list"
  num_edges :: nat
  total_latency_ms :: int
  max_edge_latency_ms :: int
  mean_edge_latency_ms :: int
  p95_edge_latency_ms :: int
  max_edge_ratio :: rat
  bottleneck_index :: int
  ann_lines :: "string list"

definition truthy :: "int option \<Rightarrow> bool" where
  \<comment> \<open>the truth value of an \<open>Optional[int]\<close>: \<open>None\<close> and \<open>0\<close> are false\<close>
  "truthy v = (case v of None \<Rightarrow> False | Some i \<Rightarrow> i \<noteq> 0)"

definition span_ok :: "int option \<Rightarrow> int option \<Rightarrow> bool" where
  \<comment> \<open>\<open>latest >= earliest\<close>, reached only when neither is \<open>None\<close>\<close>
  "span_ok e l = (case (e, l) of (Some a, Some b) \<Rightarrow> a \<le> b | _ \<Rightarrow> False)"

definition wall_clock :: "int option \<Rightarrow> int option \<Rightarrow> int" where
  \<comment> \<open>\<open>max(0, latest - earliest)\<close>\<close>
  "wall_clock e l = (case (e, l) of (Some a, Some b) \<Rightarrow> max 0 (b - a) | _ \<Rightarrow> 0)"

definition total_evol :: "scan \<Rightarrow> int" where
  \<comment> \<open>trace_evol.py: \<open>if (earliest and latest and latest>=earliest)\<close>\<close>
  "total_evol st =
     (if truthy (sc_earliest st) \<and> truthy (sc_latest st) \<and> span_ok (sc_earliest st) (sc_latest st)
      then wall_clock (sc_earliest st) (sc_latest st) else sum_list (sc_durations st))"

definition total_balanced :: "scan \<Rightarrow> int" where
  \<comment> \<open>build_balanced_testset.py:
      \<open>if (earliest is not None and latest is not None and latest >= earliest)\<close>\<close>
  "total_balanced st =
     (if sc_earliest st \<noteq> None \<and> sc_latest st \<noteq> None \<and> span_ok (sc_earliest st) (sc_latest st)
      then wall_clock (sc_earliest st) (sc_latest st) else sum_list (sc_durations st))"

definition mx_of :: "int list \<Rightarrow> error + int" where
  \<comment> \<open>\<open>max(durations) if durations else 0\<close>\<close>
  "mx_of ds = (if ds \<noteq> [] then py_max ds else Inr 0)"

definition avg_of :: "int list \<Rightarrow> error + int" where
  \<comment> \<open>\<open>int(sum(durations)/len(durations)) if durations else 0\<close>\<close>
  "avg_of ds =
     (if ds \<noteq> [] then ebind (py_truediv (sum_list ds) (int (length ds))) (\<lambda>q. Inr (py_int_of_float q))
      else Inr 0)"

definition idx_of :: "int list \<Rightarrow> error + int" where
  \<comment> \<open>\<open>max(0, min(len(vs)-1, math.ceil(0.95 * len(vs)) - 1)) if vs else 0\<close>\<close>
  "idx_of vs =
     (if vs \<noteq> [] then
        ebind (py_float_of_int (int (length vs))) (\<lambda>n.
        ebind (py_float_mul float_095 n) (\<lambda>x.
          Inr (max 0 (min (int (length vs) - 1) (py_ceil x - 1)))))
      else Inr 0)"

definition p95_of :: "int list \<Rightarrow> error + int" where
  \<comment> \<open>\<open>vs = sorted(durations)\<close>, \<open>idx\<close>, and \<open>int(vs[idx]) if vs else 0\<close>\<close>
  "p95_of ds =
     (let vs = sort ds
      in ebind (idx_of vs) (\<lambda>idx. if vs \<noteq> [] then py_getitem vs idx else Inr 0))"

definition max_ratio_of :: "int \<Rightarrow> int \<Rightarrow> error + rat" where
  \<comment> \<open>\<open>(mx/total) if total>0 else 0.0\<close>\<close>
  "max_ratio_of mx tot = (if 0 < tot then py_truediv mx tot else Inr 0)"

definition b_idx_of :: "int list \<Rightarrow> int \<Rightarrow> error + int" where
  \<comment> \<open>\<open>durations.index(mx) if durations else -1\<close>\<close>
  "b_idx_of ds mx = (if ds \<noteq> [] then py_index ds mx else Inr (- 1))"

definition finish :: "(scan \<Rightarrow> int) \<Rightarrow> scan \<Rightarrow> error + annot" where
  \<comment> \<open>the statements after the loop, in the order of the source; the two files differ in
      the expression for \<open>total\<close> only\<close>
  "finish total_of st =
     (let ds = sc_durations st; tot = total_of st
      in ebind (mx_of ds) (\<lambda>mx.
         ebind (avg_of ds) (\<lambda>avg.
         ebind (p95_of ds) (\<lambda>p95.
         ebind (max_ratio_of mx tot) (\<lambda>max_ratio.
         ebind (b_idx_of ds mx) (\<lambda>b_idx.
           Inr \<lparr>durations = ds, num_edges = length ds, total_latency_ms = tot,
                max_edge_latency_ms = mx, mean_edge_latency_ms = avg,
                p95_edge_latency_ms = p95, max_edge_ratio = max_ratio,
                bottleneck_index = b_idx, ann_lines = sc_lines st\<rparr>))))))"

definition parse_trace_and_stats_evol :: "nat \<Rightarrow> string \<Rightarrow> error + annot" where
  \<comment> \<open>\<open>parse_trace_and_stats\<close> of trace_evol.py\<close>
  "parse_trace_and_stats_evol maxd txt =
     ebind (scan_lines maxd scan_init (splitlines txt)) (finish total_evol)"

definition parse_trace_and_stats_balanced :: "nat \<Rightarrow> string \<Rightarrow> error + annot" where
  \<comment> \<open>\<open>parse_trace_and_stats\<close> of build_balanced_testset.py\<close>
  "parse_trace_and_stats_balanced maxd txt =
     ebind (scan_lines maxd scan_init (filter strip_nonempty (splitlines txt))) (finish total_balanced)"

section \<open>Notions used in the statements\<close>

definition matched :: "string \<Rightarrow> bool" where
  \<comment> \<open>the lines that the loop counts and rewrites\<close>
  "matched line = (is_candidate line \<and> re_search START_FINISH_RE line \<noteq> None)"

fun captures :: "re_item \<Rightarrow> bool" where
  "captures (Lit l) = False"
| "captures (Rep cls lo greedy capture) = capture"

fun item_class :: "re_item \<Rightarrow> char \<Rightarrow> bool" where
  "item_class (Lit l) = (\<lambda>c. False)"
| "item_class (Rep cls lo greedy capture) = cls"


definition annotate_lines :: "nat \<Rightarrow> (scan \<Rightarrow> int) \<Rightarrow> string list \<Rightarrow> error + annot" where
  \<comment> \<open>the loop and the statements after it, on the list of lines\<close>
  "annotate_lines maxd total_of ls = ebind (scan_lines maxd scan_init ls) (finish total_of)"


definition same_stats :: "scan \<Rightarrow> scan \<Rightarrow> bool" where
  \<comment> \<open>two loop states that differ in \<open>ann_lines\<close> at most\<close>
  "same_stats a b =
     (sc_durations a = sc_durations b \<and> sc_earliest a = sc_earliest b \<and> sc_latest a = sc_latest b)"

definition passes_through :: "nat \<Rightarrow> (scan \<Rightarrow> int) \<Rightarrow> string list \<Rightarrow> annot \<Rightarrow> bool" where
  \<comment> \<open>\<open>r\<close> is the result for the lines \<open>ls\<close>: every line that does not both begin with \<open>[\<close>
      and match the pattern is in the output at its position, unchanged; the matched lines
      are the edges counted; and the lines that are not matched change no statistic\<close>
  "passes_through maxd total_of ls r =
     (length (ann_lines r) = length ls \<and>
      (\<forall>i < length ls.
          \<not> (startswith (ls ! i) ''['' \<and> re_search START_FINISH_RE (ls ! i) \<noteq> None) \<longrightarrow>
          ann_lines r ! i = ls ! i) \<and>
      num_edges r = length (filter matched ls) \<and>
      map_sum id (\<lambda>r. r\<lparr>ann_lines := []\<rparr>) (annotate_lines maxd total_of (filter matched ls)) =
        Inr (r\<lparr>ann_lines := []\<rparr>))"

subsection \<open>Example inputs\<close>

definition two_edges :: string where
  "two_edges = ''[A starts at 0 ms, finishes at 100 ms].'' @ [CHR 0x0A] @
               ''[B starts at 50 ms, finishes at 80 ms].''"


definition blank_line_text :: string where
  "blank_line_text = ''a'' @ [CHR 0x0A, CHR 0x0A] @ ''[B starts at 1 ms, finishes at 3 ms]''"


(*THEOREMS*)

section \<open>Properties of the floating-point model\<close>

lemma bitlen_0: "bitlen 0 = 0"
  by (subst bitlen.simps) simp

lemma bitlen_pos: "0 < n \<Longrightarrow> bitlen n = Suc (bitlen (n div 2))"
  by (subst bitlen.simps) simp

lemma bitlen_bounds: "0 < n \<Longrightarrow> 2 ^ (bitlen n - 1) \<le> n \<and> n < 2 ^ bitlen n"
proof (induction n rule: bitlen.induct)
  case (1 n)
  have eq: "bitlen n = Suc (bitlen (n div 2))" using 1(2) by (rule bitlen_pos)
  show ?case
  proof (cases "n div 2 = 0")
    case True
    then show ?thesis using 1(2) by (simp add: eq bitlen_0)
  next
    case False
    then have pos: "0 < n div 2" by simp
    have ne: "n \<noteq> 0" using 1(2) by simp
    from 1(1)[OF ne pos]
    have ih: "2 ^ (bitlen (n div 2) - 1) \<le> n div 2" "n div 2 < 2 ^ bitlen (n div 2)" by auto
    obtain m where m: "bitlen (n div 2) = Suc m" using bitlen_pos[OF pos] by blast
    from ih have "2 * 2 ^ m \<le> 2 * (n div 2)" "2 * (n div 2) + 2 \<le> 2 * 2 ^ Suc m"
      by (simp_all add: m)
    moreover have "2 * (n div 2) \<le> n" "n < 2 * (n div 2) + 2" by presburger+
    ultimately have "(2::nat) * 2 ^ m \<le> n" "n < 2 * 2 ^ Suc m" by linarith+
    then show ?thesis by (simp add: eq m)
  qed
qed

lemma pow2_powi: "pow2 e = 2 powi e"
  by (simp add: pow2_def power_int_def inverse_eq_divide power_one_over)

lemma pow2_pos: "0 < pow2 e"
  by (simp add: pow2_powi zero_less_power_int)

lemma pow2_add: "pow2 (a + b) = pow2 a * pow2 b"
  by (simp add: pow2_powi power_int_add)

lemma pow2_nat: "pow2 (int n) = 2 ^ n"
  by (simp add: pow2_def)

lemma pow2_mono: "a \<le> b \<Longrightarrow> pow2 a \<le> pow2 b"
  by (simp add: pow2_powi power_int_increasing)

lemma pow2_strict_mono: "a < b \<Longrightarrow> pow2 a < pow2 b"
  by (simp add: pow2_powi power_int_strict_increasing)

lemma pow2_diff: "pow2 (a - b) = pow2 a / pow2 b"
  by (simp add: pow2_powi power_int_diff)

lemma bitlen_bounds_rat:
  assumes "0 < n"
  shows "pow2 (int (bitlen n) - 1) \<le> of_nat n" "(of_nat n :: rat) < pow2 (int (bitlen n))"
proof -
  obtain m where m: "bitlen n = Suc m" using bitlen_pos[OF assms] by blast
  from bitlen_bounds[OF assms] have "2 ^ m \<le> n" "n < 2 ^ Suc m" by (simp_all add: m)
  then have "(of_nat (2 ^ m) :: rat) \<le> of_nat n" "(of_nat n :: rat) < of_nat (2 ^ Suc m)"
    by (simp_all only: of_nat_le_iff of_nat_less_iff)
  then have r: "(2 ^ m :: rat) \<le> of_nat n" "(of_nat n :: rat) < 2 ^ Suc m"
    by simp_all
  have e1: "int (bitlen n) - 1 = int m" by (simp add: m)
  have "pow2 (int (bitlen n) - 1) = 2 ^ m" unfolding e1 by (rule pow2_nat)
  moreover have "pow2 (int (bitlen n)) = 2 ^ Suc m" unfolding m by (rule pow2_nat)
  ultimately show "pow2 (int (bitlen n) - 1) \<le> of_nat n" "(of_nat n :: rat) < pow2 (int (bitlen n))"
    using r by simp_all
qed

lemma ilog2_unique:
  assumes "pow2 k \<le> x" "x < pow2 (k + 1)" "pow2 j \<le> x" "x < pow2 (j + 1)"
  shows "j = k"
proof (rule ccontr)
  assume "j \<noteq> k"
  then consider "j + 1 \<le> k" | "k + 1 \<le> j" by linarith
  then show False
  proof cases
    case 1
    from pow2_mono[OF 1] assms show False by linarith
  next
    case 2
    from pow2_mono[OF 2] assms show False by linarith
  qed
qed

lemma ilog2_frac_bounds:
  assumes "0 < a" "0 < b"
  shows "pow2 (ilog2_frac a b) \<le> of_nat a / of_nat b \<and> of_nat a / of_nat b < pow2 (ilog2_frac a b + 1)"
proof -
  define d where "d = int (bitlen a) - int (bitlen b)"
  note a1 = bitlen_bounds_rat[OF assms(1)]
  note b1 = bitlen_bounds_rat[OF assms(2)]
  have bpos: "(0::rat) < of_nat b" using assms(2) by simp
  have up: "of_nat a / of_nat b < pow2 (d + 1)"
  proof -
    have "pow2 (d + 1) * pow2 (int (bitlen b) - 1) \<le> pow2 (d + 1) * of_nat b"
      using b1(1) pow2_pos[of "d + 1"] by (simp only: mult_le_cancel_left_pos)
    moreover have "pow2 (d + 1) * pow2 (int (bitlen b) - 1) = pow2 (int (bitlen a))"
      by (simp add: pow2_add[symmetric] d_def)
    ultimately have "of_nat a < pow2 (d + 1) * of_nat b" using a1(2) by linarith
    then show ?thesis using bpos by (simp add: pos_divide_less_eq)
  qed
  have lo: "pow2 (d - 1) \<le> of_nat a / of_nat b"
  proof -
    have "pow2 (d - 1) * of_nat b \<le> pow2 (d - 1) * pow2 (int (bitlen b))"
      using b1(2) pow2_pos[of "d - 1"] by (simp only: mult_le_cancel_left_pos less_imp_le)
    moreover have "pow2 (d - 1) * pow2 (int (bitlen b)) = pow2 (int (bitlen a) - 1)"
      by (simp add: pow2_add[symmetric] d_def)
    ultimately have "pow2 (d - 1) * of_nat b \<le> of_nat a" using a1(1) by linarith
    then show ?thesis using bpos by (simp add: pos_le_divide_eq)
  qed
  show ?thesis
  proof (cases "of_nat b * pow2 d \<le> (of_nat a :: rat)")
    case True
    then have "ilog2_frac a b = d" by (simp add: ilog2_frac_def d_def Let_def)
    moreover from True have "pow2 d \<le> of_nat a / of_nat b" using bpos
      by (simp add: pos_le_divide_eq mult.commute)
    ultimately show ?thesis using up by simp
  next
    case False
    then have "ilog2_frac a b = d - 1" by (simp add: ilog2_frac_def d_def Let_def)
    moreover from False have "of_nat a / of_nat b < pow2 d" using bpos
      by (simp add: pos_divide_less_eq mult.commute)
    ultimately show ?thesis using lo by simp
  qed
qed

lemma rhe_int: "round_half_even (of_int n) = n"
  by (simp add: round_half_even_def)

lemma rhe_ge_floor: "\<lfloor>x\<rfloor> \<le> round_half_even x"
  by (simp add: round_half_even_def Let_def)

lemma rhe_le_floor1: "round_half_even x \<le> \<lfloor>x\<rfloor> + 1"
  by (simp add: round_half_even_def Let_def)

lemma rhe_le: "x \<le> of_int n \<Longrightarrow> round_half_even x \<le> n"
proof (cases "x = of_int n")
  case True
  then show ?thesis by (simp add: rhe_int)
next
  case False
  assume "x \<le> of_int n"
  with False have "x < of_int n" by simp
  then have "\<lfloor>x\<rfloor> < n" by (simp add: floor_less_iff)
  with rhe_le_floor1[of x] show ?thesis by linarith
qed

lemma rhe_ge: "of_int n \<le> x \<Longrightarrow> n \<le> round_half_even x"
proof -
  assume "of_int n \<le> x"
  then have "n \<le> \<lfloor>x\<rfloor>" by (simp add: le_floor_iff)
  with rhe_ge_floor[of x] show ?thesis by linarith
qed

lemma rhe_err: "\<bar>of_int (round_half_even x) - x\<bar> \<le> 1 / 2"
proof -
  have "of_int \<lfloor>x\<rfloor> \<le> x" "x < of_int \<lfloor>x\<rfloor> + 1" by linarith+
  then show ?thesis
    by (auto simp: round_half_even_def Let_def)
qed




lemma round_frac_eq:
  "0 < a \<Longrightarrow> round_frac a b =
     of_int (round_half_even ((of_nat a / of_nat b) / pow2 (fexp a b))) * pow2 (fexp a b)"
  by (simp add: round_frac_def fexp_def Let_def)

lemma ilog2_lt: 
  assumes "0 < a" "0 < b" "of_nat a / of_nat b < pow2 j"
  shows "ilog2_frac a b < j"
proof (rule ccontr)
  assume "\<not> ilog2_frac a b < j"
  then have "pow2 j \<le> pow2 (ilog2_frac a b)" by (simp add: pow2_mono)
  with ilog2_frac_bounds[OF assms(1,2)] assms(3) show False by linarith
qed


lemma grid_shift: "e \<le> g \<Longrightarrow> of_int m * pow2 g = of_int (m * 2 ^ nat (g - e)) * pow2 e"
proof -
  assume "e \<le> g"
  then have "g = int (nat (g - e)) + e" by simp
  then have "pow2 g = pow2 (int (nat (g - e)) + e)" by simp
  also have "\<dots> = pow2 (int (nat (g - e))) * pow2 e" by (rule pow2_add)
  also have "\<dots> = 2 ^ nat (g - e) * pow2 e" by (simp only: pow2_nat)
  finally show ?thesis by simp
qed

lemma round_frac_le_grid:
  assumes "0 < a" "of_nat a / of_nat b \<le> of_int m * pow2 g" "fexp a b \<le> g"
  shows "round_frac a b \<le> of_int m * pow2 g"
proof -
  let ?e = "fexp a b"
  let ?M = "m * 2 ^ nat (g - ?e)"
  have g: "of_int m * pow2 g = of_int ?M * pow2 ?e" by (rule grid_shift[OF assms(3)])
  have "(of_nat a / of_nat b) / pow2 ?e \<le> of_int ?M"
    using assms(2) unfolding g by (simp only: pos_divide_le_eq[OF pow2_pos])
  then have "round_half_even ((of_nat a / of_nat b) / pow2 ?e) \<le> ?M" by (rule rhe_le)
  then have "(of_int (round_half_even ((of_nat a / of_nat b) / pow2 ?e)) :: rat) \<le> of_int ?M"
    by (simp only: of_int_le_iff)
  then have "of_int (round_half_even ((of_nat a / of_nat b) / pow2 ?e)) * pow2 ?e \<le> of_int ?M * pow2 ?e"
    using pow2_pos[of ?e] by (simp only: mult_le_cancel_right_pos)
  then show ?thesis unfolding g round_frac_eq[OF assms(1)] .
qed

lemma round_frac_ge_grid:
  assumes "0 < a" "of_int m * pow2 g \<le> of_nat a / of_nat b" "fexp a b \<le> g"
  shows "of_int m * pow2 g \<le> round_frac a b"
proof -
  let ?e = "fexp a b"
  let ?M = "m * 2 ^ nat (g - ?e)"
  have g: "of_int m * pow2 g = of_int ?M * pow2 ?e" by (rule grid_shift[OF assms(3)])
  have "of_int ?M \<le> (of_nat a / of_nat b) / pow2 ?e"
    using assms(2) unfolding g by (simp only: pos_le_divide_eq[OF pow2_pos])
  then have "?M \<le> round_half_even ((of_nat a / of_nat b) / pow2 ?e)" by (rule rhe_ge)
  then have "(of_int ?M :: rat) \<le> of_int (round_half_even ((of_nat a / of_nat b) / pow2 ?e))"
    by (simp only: of_int_le_iff)
  then have "of_int ?M * pow2 ?e \<le> of_int (round_half_even ((of_nat a / of_nat b) / pow2 ?e)) * pow2 ?e"
    using pow2_pos[of ?e] by (simp only: mult_le_cancel_right_pos)
  then show ?thesis unfolding g round_frac_eq[OF assms(1)] .
qed

lemma round_frac_err:
  assumes "0 < a"
  shows "\<bar>round_frac a b - of_nat a / of_nat b\<bar> \<le> pow2 (fexp a b) / 2"
proof -
  let ?e = "fexp a b"
  let ?y = "(of_nat a / of_nat b) / pow2 ?e"
  have p: "0 < pow2 ?e" by (rule pow2_pos)
  have "round_frac a b - of_nat a / of_nat b = (of_int (round_half_even ?y) - ?y) * pow2 ?e"
    using p by (simp add: round_frac_eq[OF assms] algebra_simps)
  then have "\<bar>round_frac a b - of_nat a / of_nat b\<bar> = \<bar>of_int (round_half_even ?y) - ?y\<bar> * pow2 ?e"
    using p by (simp add: abs_mult)
  also have "\<dots> \<le> (1 / 2) * pow2 ?e"
    using rhe_err[of ?y] p by (simp only: mult_le_cancel_right_pos)
  finally show ?thesis by simp
qed

lemma fexp_le: 
  assumes "0 < a" "0 < b" "of_nat a / of_nat b < pow2 j" "- 1021 \<le> j"
  shows "fexp a b \<le> j - 53"
  using ilog2_lt[OF assms(1-3)] assms(4) by (simp add: fexp_def)


lemma fexp_le_ilog2: "- 1074 \<le> k \<Longrightarrow> ilog2_frac a b \<le> k \<Longrightarrow> fexp a b \<le> k"
  by (simp add: fexp_def)

lemma round_frac_on_grid:
  assumes "0 < a" "of_nat a / of_nat b = of_int m * pow2 g" "fexp a b \<le> g"
  shows "round_frac a b = of_int m * pow2 g"
proof -
  have "round_frac a b \<le> of_int m * pow2 g"
    using assms(2) by (intro round_frac_le_grid[OF assms(1) _ assms(3)]) simp
  moreover have "of_int m * pow2 g \<le> round_frac a b"
    using assms(2) by (intro round_frac_ge_grid[OF assms(1) _ assms(3)]) simp
  ultimately show ?thesis by simp
qed

lemma pow2_0: "pow2 0 = 1"
  by (simp add: pow2_def)

lemma pow2_numeral: "pow2 (numeral n) = 2 ^ numeral n"
  using pow2_nat[of "numeral n"] by simp

lemma round_frac_exact_div:
  assumes "0 < b" "b dvd a" "a div b < 2 ^ 53"
  shows "round_frac a b = of_nat (a div b)"
proof (cases "a = 0")
  case True
  then show ?thesis by (simp add: round_frac_def)
next
  case False
  then have apos: "0 < a" by simp
  obtain k where k: "a = b * k" using assms(2) by (auto elim: dvdE)
  have x: "(of_nat a :: rat) / of_nat b = of_nat (a div b)"
    using assms(1) by (simp add: k)
  have "(of_nat (a div b) :: rat) < of_nat (2 ^ 53)" using assms(3) by (simp only: of_nat_less_iff)
  then have "(of_nat a :: rat) / of_nat b < pow2 53" by (simp add: x pow2_numeral)
  from fexp_le[OF apos assms(1) this] have e: "fexp a b \<le> 0" by simp
  have "(of_nat a :: rat) / of_nat b = of_int (int (a div b)) * pow2 0" by (simp add: x pow2_0)
  from round_frac_on_grid[OF apos this e] show ?thesis by (simp add: pow2_0)
qed

lemma round_frac_exact_nat: "n < 2 ^ 53 \<Longrightarrow> round_frac n 1 = of_nat n"
  using round_frac_exact_div[of 1 n] by simp


lemma round_frac_le_1:
  assumes "a \<le> b" "0 < b"
  shows "round_frac a b \<le> 1"
proof (cases "a = 0")
  case True
  then show ?thesis by (simp add: round_frac_def)
next
  case False
  then have apos: "0 < a" by simp
  have "(of_nat a :: rat) \<le> of_nat b" using assms(1) by (simp only: of_nat_le_iff)
  then have x1: "(of_nat a :: rat) / of_nat b \<le> 1" using assms(2) by (simp add: pos_divide_le_eq)
  then have "(of_nat a :: rat) / of_nat b < pow2 1" by (simp add: pow2_def)
  from fexp_le[OF apos assms(2) this] have e: "fexp a b \<le> 0" by simp
  have "(of_nat a :: rat) / of_nat b \<le> of_int 1 * pow2 0" using x1 by (simp add: pow2_0)
  from round_frac_le_grid[OF apos this e] show ?thesis by (simp add: pow2_0)
qed

lemma round_frac_scale:
  assumes "0 < a" "0 < b" "0 < c" "0 < d" "(of_nat a :: rat) / of_nat b = of_nat c / of_nat d"
  shows "round_frac a b = round_frac c d"
proof -
  have "ilog2_frac a b = ilog2_frac c d"
    using ilog2_frac_bounds[OF assms(1,2)] ilog2_frac_bounds[OF assms(3,4)]
    unfolding assms(5)
    by (intro ilog2_unique[of "ilog2_frac c d" "of_nat c / of_nat d" "ilog2_frac a b"]) simp_all
  then have "fexp a b = fexp c d" by (simp add: fexp_def)
  then show ?thesis by (simp add: round_frac_eq[OF assms(1)] round_frac_eq[OF assms(3)] assms(5))
qed

lemma round_double_frac:
  assumes "0 < b"
  shows "round_double (of_nat a / of_nat b) = round_frac a b"
proof (cases "a = 0")
  case True
  then show ?thesis by (simp add: round_double_def round_frac_def)
next
  case False
  then have apos: "0 < a" by simp
  obtain p q where pq: "quotient_of (of_nat a / of_nat b) = (p, q)" by (cases "quotient_of (of_nat a / of_nat b :: rat)")
  have q: "0 < q" using pq by (rule quotient_of_denom_pos)
  have eq: "(of_nat a :: rat) / of_nat b = of_int p / of_int q" using pq by (rule quotient_of_div)
  have "(0::rat) < of_nat a / of_nat b" using apos assms by simp
  then have "(0::rat) < of_int p / of_int q" by (simp only: eq)
  then have p: "0 < p" using q by (simp add: zero_less_divide_iff)
  have "(of_nat (nat p) :: rat) / of_nat (nat q) = of_nat a / of_nat b"
    using p q by (simp add: eq)
  then have "round_frac (nat p) (nat q) = round_frac a b"
    using p q apos assms by (intro round_frac_scale) simp_all
  then show ?thesis by (simp add: round_double_def pq)
qed


lemma round_frac_no_overflow:
  assumes "0 < b" "(of_nat a :: rat) < of_nat b * (2 ^ 1024 - 2 ^ 970)"
  shows "round_frac a b < 2 ^ 1024"
proof (cases "a = 0")
  case True
  then show ?thesis by (simp add: round_frac_def)
next
  case False
  then have apos: "0 < a" by simp
  have bpos: "(0::rat) < of_nat b" using assms(1) by simp
  have x: "(of_nat a :: rat) / of_nat b < 2 ^ 1024 - 2 ^ 970"
    using assms(2) bpos by (simp add: pos_divide_less_eq mult.commute)
  have "(2::rat) ^ 1024 - 2 ^ 970 < 2 ^ 1024" by simp
  with x have "(of_nat a :: rat) / of_nat b < pow2 1024" unfolding pow2_numeral by linarith
  from fexp_le[OF apos assms(1) this] have "fexp a b \<le> 971" by simp
  then have "pow2 (fexp a b) \<le> pow2 971" by (rule pow2_mono)
  moreover have "pow2 971 = 2 * 2 ^ 970" by (simp only: pow2_numeral) simp
  ultimately have e: "pow2 (fexp a b) / 2 \<le> 2 ^ 970" by simp
  from round_frac_err[OF apos, of b] have "round_frac a b \<le> of_nat a / of_nat b + pow2 (fexp a b) / 2"
    by linarith
  with e x show ?thesis by linarith
qed


lemma round_frac_floor:
  assumes "0 < b" "a < 2 ^ 53"
  shows "\<lfloor>round_frac a b\<rfloor> = int (a div b)"
proof (cases "a = 0")
  case True
  then show ?thesis by (simp add: round_frac_def)
next
  case False
  then have apos: "0 < a" by simp
  let ?x = "(of_nat a :: rat) / of_nat b"
  let ?q = "a div b"
  have bpos: "(0::rat) < of_nat b" using assms(1) by simp
  have "?q * b \<le> a" by simp
  then have "(of_nat (?q * b) :: rat) \<le> of_nat a" by (simp only: of_nat_le_iff)
  then have qx: "(of_nat ?q :: rat) \<le> ?x" using bpos by (simp add: pos_le_divide_eq)
  have "a + 1 \<le> (?q + 1) * b" using assms(1)
    by (metis Suc_eq_plus1 Suc_leI dividend_less_div_times mult.commute add.commute mult_Suc)
  then have "(of_nat (a + 1) :: rat) \<le> of_nat ((?q + 1) * b)" by (simp only: of_nat_le_iff)
  then have "(of_nat a + 1 :: rat) / of_nat b \<le> of_nat ?q + 1" using bpos by (simp add: pos_divide_le_eq algebra_simps)
  then have xq: "?x + 1 / of_nat b \<le> of_nat ?q + 1" by (simp add: add_divide_distrib)
  have "(of_nat a :: rat) \<le> of_nat a * of_nat b" using assms(1) by (simp add: mult_le_cancel_left1)
  then have xa: "?x \<le> of_nat a" using bpos by (simp add: pos_divide_le_eq)
  have "(of_nat a :: rat) < of_nat (2 ^ 53)" using assms(2) by (simp only: of_nat_less_iff)
  then have a53: "(of_nat a :: rat) < 2 ^ 53" by simp
  with xa have "?x < pow2 53" unfolding pow2_numeral by linarith
  from fexp_le[OF apos assms(1) this] have e0: "fexp a b \<le> 0" by simp
  have "of_int (int ?q) * pow2 0 \<le> ?x" using qx by (simp add: pow2_0)
  from round_frac_ge_grid[OF apos this e0] have lo: "of_int (int ?q) \<le> round_frac a b"
    by (simp add: pow2_0)
  have hi: "round_frac a b < of_int (int ?q) + 1"
  proof (cases "- 1074 \<le> ilog2_frac a b - 52")
    case True
    then have e: "fexp a b = ilog2_frac a b - 52" by (simp add: fexp_def)
    have "pow2 (fexp a b) = pow2 (ilog2_frac a b) / pow2 52" unfolding e by (rule pow2_diff)
    also have "\<dots> \<le> ?x / pow2 52"
      using ilog2_frac_bounds[OF apos assms(1)] pow2_pos[of 52] by (intro divide_right_mono) simp_all
    finally have "pow2 (fexp a b) / 2 \<le> ?x / 2 ^ 53" by (simp add: pow2_numeral)
    also have "\<dots> < 1 / of_nat b"
    proof -
      have "?x / 2 ^ 53 = (of_nat a / 2 ^ 53) / of_nat b" by simp
      also have "\<dots> < 1 / of_nat b"
      proof -
        have "(of_nat a :: rat) / 2 ^ 53 < 1" using a53 by simp
        then show ?thesis using bpos by (rule divide_strict_right_mono)
      qed
      finally show ?thesis .
    qed
    finally have "pow2 (fexp a b) / 2 < 1 / of_nat b" .
    moreover from round_frac_err[OF apos, of b] have "round_frac a b \<le> ?x + pow2 (fexp a b) / 2"
      by linarith
    ultimately show ?thesis using xq by simp
  next
    case False
    then have "ilog2_frac a b + 1 \<le> - 1022" by simp
    then have "pow2 (ilog2_frac a b + 1) \<le> pow2 (- 1022)" by (rule pow2_mono)
    with ilog2_frac_bounds[OF apos assms(1)] have "?x \<le> of_int 1 * pow2 (- 1022)" by simp
    moreover have "fexp a b \<le> - 1022" using False by (simp add: fexp_def)
    ultimately have "round_frac a b \<le> of_int 1 * pow2 (- 1022)" by (rule round_frac_le_grid[OF apos])
    moreover have "pow2 (- 1022) < pow2 0" by (rule pow2_strict_mono) simp
    ultimately have "round_frac a b < 1" by (simp add: pow2_0)
    then show ?thesis by simp
  qed
  from lo hi show ?thesis by (simp add: floor_unique)
qed

lemma ceil_095:
  assumes "0 < N" "N < 2 ^ 48"
  shows "\<lceil>round_frac (8556839292003942 * N) (2 ^ 53)\<rceil> = \<lceil>(19 * of_nat N :: rat) / 20\<rceil>"
proof -
  let ?a = "8556839292003942 * N"
  let ?b = "(2::nat) ^ 53"
  let ?x = "(of_nat ?a :: rat) / of_nat ?b"
  let ?c = "\<lceil>(19 * of_nat N :: rat) / 20\<rceil>"
  have apos: "0 < ?a" using assms(1) by simp
  have bpos: "0 < ?b" by simp
  have Npos: "(0::rat) < of_nat N" using assms(1) by simp
  have "(of_nat N :: rat) < of_nat (2 ^ 48)" using assms(2) by (simp only: of_nat_less_iff)
  then have N48: "(of_nat N :: rat) < 2 ^ 48" by simp
  have xeq: "?x = 19 * of_nat N / 20 - of_nat N * (2 / (5 * 2 ^ 53))" by simp
  have x_lt: "?x < of_nat N" using Npos by simp
  have x_le: "?x \<le> 19 * of_nat N / 20" using Npos by simp
  have "of_nat N * (2 / (5 * 2 ^ 53)) \<le> (2 ^ 48 :: rat) * (2 / (5 * 2 ^ 53))"
    using N48 by (intro mult_right_mono) simp_all
  also have "\<dots> = 1 / 80" by simp
  finally have x_ge: "19 * of_nat N / 20 - 1 / 80 \<le> ?x" unfolding xeq by linarith
  have "?x < pow2 48" using x_lt N48 unfolding pow2_numeral by linarith
  from fexp_le[OF apos bpos this] have e: "fexp ?a ?b \<le> - 5" by simp
  have c_ge: "19 * of_nat N / 20 \<le> (of_int ?c :: rat)" by (rule le_of_int_ceiling)
  have up: "round_frac ?a ?b \<le> of_int ?c"
  proof -
    have "?x \<le> of_int ?c * pow2 0" using x_le c_ge unfolding pow2_0 by linarith
    moreover have "fexp ?a ?b \<le> 0" using e by simp
    ultimately have "round_frac ?a ?b \<le> of_int ?c * pow2 0" by (rule round_frac_le_grid[OF apos])
    then show ?thesis by (simp add: pow2_0)
  qed
  have "of_int ?c - 1 < (19 * of_nat N :: rat) / 20" by linarith
  then have "(of_int (20 * (?c - 1)) :: rat) < of_int (19 * int N)" by simp
  then have "20 * (?c - 1) < 19 * int N" by (simp only: of_int_less_iff)
  then have "20 * (?c - 1) + 1 \<le> 19 * int N" by simp
  then have "(of_int (20 * (?c - 1) + 1) :: rat) \<le> of_int (19 * int N)" by (simp only: of_int_le_iff)
  then have c_lo: "(of_int ?c :: rat) - 1 + 1 / 20 \<le> 19 * of_nat N / 20" by simp
  have "pow2 (fexp ?a ?b) \<le> pow2 (- 5)" using e by (rule pow2_mono)
  also have "pow2 (- 5) = 1 / 32" by (simp add: pow2_def)
  finally have "pow2 (fexp ?a ?b) / 2 \<le> 1 / 64" by simp
  moreover from round_frac_err[OF apos, of ?b] have "?x - pow2 (fexp ?a ?b) / 2 \<le> round_frac ?a ?b"
    by linarith
  ultimately have "?x - 1 / 64 \<le> round_frac ?a ?b" by linarith
  with x_ge c_lo have lo: "of_int ?c - 1 < round_frac ?a ?b" by linarith
  from lo up show ?thesis by (simp add: ceiling_unique)
qed

section \<open>Properties of the matcher\<close>

lemma first_some_Some: "first_some f ks = Some y \<Longrightarrow> \<exists>k \<in> set ks. f k = Some y"
  by (induction ks) (auto split: option.splits)

lemma match_lit_suffix: "match_lit p s = Some r \<Longrightarrow> suffix r s"
proof (induction p s rule: match_lit.induct)
  case (3 p ps c cs)
  then show ?case by (auto split: if_splits intro: suffix_ConsI)
qed simp_all

lemma sublist_drop: "sublist g (drop k s) \<Longrightarrow> sublist g s"
proof -
  assume "sublist g (drop k s)"
  then obtain ps ss where "drop k s = ps @ g @ ss" by (auto simp: sublist_def)
  then have "take k s @ drop k s = (take k s @ ps) @ g @ ss" by simp
  then have "s = (take k s @ ps) @ g @ ss" by (simp only: append_take_drop_id)
  then show ?thesis unfolding sublist_def by blast
qed

lemma sublist_suffix: "sublist g r \<Longrightarrow> suffix r s \<Longrightarrow> sublist g s"
proof -
  assume "sublist g r" "suffix r s"
  then obtain ps ss zs where "r = ps @ g @ ss" "s = zs @ r" by (auto simp: sublist_def suffix_def)
  then have "s = (zs @ ps) @ g @ ss" by simp
  then show ?thesis unfolding sublist_def by blast
qed

lemma take_takeWhile: "k \<le> length (takeWhile P s) \<Longrightarrow> c \<in> set (take k s) \<Longrightarrow> P c"
proof (induction s arbitrary: k)
  case Nil
  then show ?case by simp
next
  case (Cons a s)
  then show ?case by (cases k) (auto split: if_splits)
qed

lemma re_match_caps:
  "re_match items s caps = Some caps' \<Longrightarrow> \<forall>it \<in> set items. captures it \<longrightarrow> item_class it = P \<Longrightarrow>
   \<exists>new. caps' = caps @ new \<and> length new = length (filter captures items) \<and>
         (\<forall>g \<in> set new. sublist g s \<and> (\<forall>c \<in> set g. P c))"
proof (induction items s caps arbitrary: caps' rule: re_match.induct)
  case (1 s caps)
  then show ?case by simp
next
  case (2 l items s caps)
  from 2(2) obtain r where r: "match_lit l s = Some r" "re_match items r caps = Some caps'"
    by (auto split: option.splits)
  from 2(1)[OF r] 2(3) obtain new where new: "caps' = caps @ new" "length new = length (filter captures items)"
    "\<forall>g \<in> set new. sublist g r \<and> (\<forall>c \<in> set g. P c)" by auto
  from new(3) match_lit_suffix[OF r(1)] have "\<forall>g \<in> set new. sublist g s \<and> (\<forall>c \<in> set g. P c)"
    by (auto intro: sublist_suffix)
  with new(1,2) show ?case by auto
next
  case (3 cls lo greedy capture items s caps)
  define n where "n = length (takeWhile cls s)"
  define ks where "ks = (if greedy then rev [lo ..< Suc n] else [lo ..< Suc n])"
  from 3(2) have "first_some (\<lambda>k. re_match items (drop k s) (if capture then caps @ [take k s] else caps)) ks = Some caps'"
    by (simp only: re_match.simps Let_def n_def ks_def)
  from first_some_Some[OF this] obtain k where k: "k \<in> set ks"
    "re_match items (drop k s) (if capture then caps @ [take k s] else caps) = Some caps'" by auto
  from k(1) have kn: "k \<le> n" by (auto simp: ks_def split: if_splits)
  have items: "\<forall>it \<in> set items. captures it \<longrightarrow> item_class it = P" using 3(3) by simp
  from 3(1)[OF n_def ks_def k(2) items]
  obtain new where new: "caps' = (if capture then caps @ [take k s] else caps) @ new"
    "length new = length (filter captures items)"
    "\<forall>g \<in> set new. sublist g (drop k s) \<and> (\<forall>c \<in> set g. P c)" by auto
  from new(3) have new_s: "\<forall>g \<in> set new. sublist g s \<and> (\<forall>c \<in> set g. P c)"
    by (auto intro: sublist_drop)
  show ?case
  proof (cases capture)
    case True
    then have "cls = P" using 3(3) by simp
    then have "\<forall>c \<in> set (take k s). P c" using kn take_takeWhile[of k P s] by (auto simp: n_def)
    moreover have "sublist (take k s) s" by (rule prefix_imp_sublist[OF take_is_prefix])
    ultimately have "\<forall>g \<in> set (take k s # new). sublist g s \<and> (\<forall>c \<in> set g. P c)" using new_s by simp
    moreover have "caps' = caps @ (take k s # new)" using new(1) True by simp
    moreover have "length (take k s # new) = length (filter captures (Rep cls lo greedy capture # items))"
      using new(2) True by simp
    ultimately show ?thesis by blast
  next
    case False
    then show ?thesis using new(1,2) new_s by auto
  qed
qed

lemma re_search_caps:
  assumes "re_search items s = Some caps'" "\<forall>it \<in> set items. captures it \<longrightarrow> item_class it = P"
  shows "length caps' = length (filter captures items) \<and> (\<forall>g \<in> set caps'. sublist g s \<and> (\<forall>c \<in> set g. P c))"
  using assms(1)
proof (induction s)
  case Nil
  from re_match_caps[OF _ assms(2), of "[]" "[]" caps'] Nil show ?case by auto
next
  case (Cons c cs)
  show ?case
  proof (cases "re_match items (c # cs) []")
    case None
    with Cons have "length caps' = length (filter captures items) \<and> (\<forall>g \<in> set caps'. sublist g cs \<and> (\<forall>c \<in> set g. P c))"
      by simp
    then show ?thesis by (auto simp: sublist_Cons_right)
  next
    case (Some a)
    with Cons(2) have "re_match items (c # cs) [] = Some caps'" by simp
    from re_match_caps[OF this assms(2)] show ?thesis by auto
  qed
qed

lemma START_FINISH_RE_caps:
  assumes "re_search START_FINISH_RE line = Some caps"
  shows "\<exists>g1 g2. caps = [g1, g2] \<and> sublist g1 line \<and> sublist g2 line \<and>
           (\<forall>c \<in> set g1. is_digit c) \<and> (\<forall>c \<in> set g2. is_digit c)"
proof -
  have "\<forall>it \<in> set START_FINISH_RE. captures it \<longrightarrow> item_class it = is_digit"
    by (simp add: START_FINISH_RE_def)
  from re_search_caps[OF assms this] have l: "length caps = 2"
    and g: "\<forall>g \<in> set caps. sublist g line \<and> (\<forall>c \<in> set g. is_digit c)"
    by (simp_all add: START_FINISH_RE_def)
  from l obtain g1 r1 where r1: "caps = g1 # r1" "length r1 = 1" by (cases caps) auto
  then obtain g2 where "r1 = [g2]" by (cases r1) auto
  with r1 g show ?thesis by auto
qed

section \<open>Properties of the statistics\<close>

lemma to_float_ok: "x < 2 ^ 1024 \<Longrightarrow> to_float x = Inr x"
  by (simp add: to_float_def)

lemma T_pos: "(0::rat) < 2 ^ 1024 - 2 ^ 970"
  by simp

lemma py_truediv_ok:
  assumes "0 \<le> a" "0 < b" "a < b * (2 ^ 1024 - 2 ^ 970)"
  shows "py_truediv a b = Inr (round_frac (nat a) (nat b))"
proof -
  have "(of_int a :: rat) < of_int (b * (2 ^ 1024 - 2 ^ 970))" using assms(3) by (simp only: of_int_less_iff)
  then have "(of_nat (nat a) :: rat) < of_nat (nat b) * (2 ^ 1024 - 2 ^ 970)"
    using assms(1,2) by simp
  then have "round_frac (nat a) (nat b) < 2 ^ 1024"
    using assms(2) by (intro round_frac_no_overflow) simp_all
  then show ?thesis using assms(2) by (simp add: py_truediv_def to_float_ok)
qed


lemma avg_of_ok:
  assumes "ds \<noteq> []" "0 \<le> sum_list ds" "sum_list ds < int (length ds) * (2 ^ 1024 - 2 ^ 970)"
  shows "avg_of ds = Inr \<lfloor>round_frac (nat (sum_list ds)) (length ds)\<rfloor>"
proof -
  have "0 < int (length ds)" using assms(1) by simp
  from py_truediv_ok[OF assms(2) this assms(3)] show ?thesis
    using assms(1) by (simp add: avg_of_def ebind_def py_int_of_float_def)
qed


lemma avg_of_small:
  assumes "ds \<noteq> []" "0 \<le> sum_list ds" "sum_list ds < 2 ^ 53"
  shows "avg_of ds = Inr (sum_list ds div int (length ds))"
proof -
  have n: "0 < length ds" using assms(1) by simp
  have "1 \<le> int (length ds)" using assms(1) by (cases ds) simp_all
  moreover have "(2::int) ^ 53 \<le> 2 ^ 1024 - 2 ^ 970" by simp
  ultimately have "(1::int) * 2 ^ 53 \<le> int (length ds) * (2 ^ 1024 - 2 ^ 970)"
    by (intro mult_mono) simp_all
  with assms(3) have lt: "sum_list ds < int (length ds) * (2 ^ 1024 - 2 ^ 970)" by linarith
  have "nat (sum_list ds) < 2 ^ 53" using assms(2,3) by (simp add: nat_less_iff)
  from round_frac_floor[OF n this]
  have "\<lfloor>round_frac (nat (sum_list ds)) (length ds)\<rfloor> = sum_list ds div int (length ds)"
    using assms(2) by (simp add: zdiv_int)
  with avg_of_ok[OF assms(1,2) lt] show ?thesis by simp
qed

lemma avg_of_Nil: "avg_of [] = Inr 0"
  by (simp add: avg_of_def)

lemma float_095_mul: "float_095 * of_nat N = of_nat (8556839292003942 * N) / of_nat (2 ^ 53)"
  by (simp add: float_095_def)

lemma ceil_19_20:
  assumes "0 < N"
  shows "1 \<le> \<lceil>(19 * of_nat N :: rat) / 20\<rceil>" "\<lceil>(19 * of_nat N :: rat) / 20\<rceil> \<le> int N"
proof -
  have "(0::rat) < 19 * of_nat N / 20" using assms by simp
  then have "0 < \<lceil>(19 * of_nat N :: rat) / 20\<rceil>" by (simp only: zero_less_ceiling)
  then show "1 \<le> \<lceil>(19 * of_nat N :: rat) / 20\<rceil>" by simp
  have "(19 * of_nat N :: rat) / 20 \<le> of_int (int N)" by simp
  then show "\<lceil>(19 * of_nat N :: rat) / 20\<rceil> \<le> int N" by (simp only: ceiling_le_iff)
qed

lemma idx_of_exact:
  assumes "vs \<noteq> []" "length vs < 2 ^ 48"
  shows "idx_of vs = Inr (\<lceil>(19 * of_nat (length vs) :: rat) / 20\<rceil> - 1)"
proof -
  let ?N = "length vs"
  let ?c = "\<lceil>(19 * of_nat ?N :: rat) / 20\<rceil>"
  let ?y = "round_frac (8556839292003942 * ?N) (2 ^ 53)"
  have n: "0 < ?N" using assms(1) by simp
  have "?N < 2 ^ 53" using assms(2) by (rule less_trans) simp
  then have f1: "round_frac ?N 1 = of_nat ?N" by (rule round_frac_exact_nat)
  have "(of_nat ?N :: rat) < of_nat (2 ^ 48)" using assms(2) by (simp only: of_nat_less_iff)
  then have N48: "(of_nat ?N :: rat) < 2 ^ 48" by simp
  then have "(of_nat ?N :: rat) < 2 ^ 1024" by (rule less_trans) simp
  then have a: "py_float_of_int (int ?N) = Inr (of_nat ?N)"
    using f1 by (simp add: py_float_of_int_def to_float_ok)
  have rd: "round_double (float_095 * of_nat ?N) = ?y"
    unfolding float_095_mul by (rule round_double_frac) simp
  have c: "\<lceil>?y\<rceil> = ?c" using n assms(2) by (rule ceil_095)
  have "?y \<le> of_int \<lceil>?y\<rceil>" by (rule le_of_int_ceiling)
  also have "\<dots> \<le> of_int (int ?N)" unfolding c using ceil_19_20(2)[OF n] by (simp only: of_int_le_iff)
  also have "\<dots> < 2 ^ 1024" using \<open>(of_nat ?N :: rat) < 2 ^ 1024\<close> by simp
  finally have b: "py_float_mul float_095 (of_nat ?N) = Inr ?y"
    by (simp add: py_float_mul_def rd to_float_ok)
  have m: "max 0 (min (int ?N - 1) (?c - 1)) = ?c - 1"
    using ceil_19_20[OF n] by simp
  have "idx_of vs = ebind (py_float_of_int (int ?N)) (\<lambda>n.
        ebind (py_float_mul float_095 n) (\<lambda>x.
          Inr (max 0 (min (int ?N - 1) (py_ceil x - 1)))))"
    using assms(1) by (simp only: idx_of_def if_True not_False_eq_True)
  also have "\<dots> = Inr (max 0 (min (int ?N - 1) (\<lceil>?y\<rceil> - 1)))"
    by (simp only: a b ebind_def sum.case py_ceil_def)
  also have "\<dots> = Inr (?c - 1)" by (simp only: c m)
  finally show ?thesis .
qed

lemma py_getitem_ok: "0 \<le> i \<Longrightarrow> i < int (length xs) \<Longrightarrow> py_getitem xs i = Inr (xs ! nat i)"
  by (simp add: py_getitem_def)

lemma p95_of_Nil: "p95_of [] = Inr 0"
  by (simp add: p95_of_def idx_of_def ebind_def)

lemma p95_of_exact:
  assumes "ds \<noteq> []" "length ds < 2 ^ 48"
  shows "p95_of ds = Inr (sort ds ! nat (\<lceil>(19 * of_nat (length ds) :: rat) / 20\<rceil> - 1))"
proof -
  have ne: "sort ds \<noteq> []" using assms(1) by (metis length_0_conv length_sort)
  have len: "length (sort ds) = length ds" by simp
  have n: "0 < length ds" using assms(1) by simp
  have i: "idx_of (sort ds) = Inr (\<lceil>(19 * of_nat (length ds) :: rat) / 20\<rceil> - 1)"
    using idx_of_exact[OF ne] assms(2) by (simp only: len)
  have "py_getitem (sort ds) (\<lceil>(19 * of_nat (length ds) :: rat) / 20\<rceil> - 1)
          = Inr (sort ds ! nat (\<lceil>(19 * of_nat (length ds) :: rat) / 20\<rceil> - 1))"
    using ceil_19_20[OF n] unfolding len[symmetric] by (intro py_getitem_ok) linarith+
  then show ?thesis using ne by (simp add: p95_of_def Let_def i ebind_def)
qed









lemma foldl_max_Max: "foldl max x ys = Max (set (x # ys))"
proof -
  have e: "(\<lambda>y a. max a y) = (max :: 'a \<Rightarrow> 'a \<Rightarrow> 'a)" by (intro ext) (rule max.commute)
  show ?thesis by (simp only: foldl_conv_fold e Max.set_eq_fold)
qed

lemma mx_of_eq: "mx_of ds = Inr (if ds = [] then 0 else Max (set ds))"
  by (cases ds) (simp_all add: mx_of_def py_max_def foldl_max_Max del: foldl_Cons)













lemma max_ratio_of_returns:
  assumes "0 \<le> mx" "0 < tot \<longrightarrow> mx \<le> tot"
  shows "max_ratio_of mx tot = Inr (if 0 < tot then round_frac (nat mx) (nat tot) else 0)"
proof (cases "0 < tot")
  case True
  with assms(2) have le: "mx \<le> tot" by simp
  have "round_frac (nat mx) (nat tot) \<le> 1" using le True assms(1) by (intro round_frac_le_1) simp_all
  then have "round_frac (nat mx) (nat tot) < 2 ^ 1024" by (rule le_less_trans) simp
  then show ?thesis using True by (simp add: max_ratio_of_def py_truediv_def to_float_ok)
next
  case False
  then show ?thesis by (simp add: max_ratio_of_def)
qed



section \<open>Properties of the loop over the lines\<close>

lemma scan_line_unmatched:
  "\<not> matched l \<Longrightarrow> scan_line maxd st l = Inr (st\<lparr>sc_lines := sc_lines st @ [l]\<rparr>)"
  by (auto simp: scan_line_def matched_def split: option.splits)

lemma scan_line_matched:
  assumes "matched l"
  shows "\<exists>g1 g2. re_search START_FINISH_RE l = Some [g1, g2] \<and> sublist g1 l \<and> sublist g2 l \<and>
           (\<forall>c \<in> set g1. is_digit c) \<and> (\<forall>c \<in> set g2. is_digit c) \<and>
           (\<forall>maxd st. scan_line maxd st l = scan_match maxd st l [g1, g2])"
proof -
  from assms obtain caps where caps: "re_search START_FINISH_RE l = Some caps" and c: "is_candidate l"
    by (auto simp: matched_def)
  from START_FINISH_RE_caps[OF caps] obtain g1 g2 where g: "caps = [g1, g2]" "sublist g1 l" "sublist g2 l"
    "\<forall>c \<in> set g1. is_digit c" "\<forall>c \<in> set g2. is_digit c" by blast
  have "\<forall>maxd st. scan_line maxd st l = scan_match maxd st l [g1, g2]"
    using c caps g(1) by (simp add: scan_line_def)
  then show ?thesis using caps g by blast
qed

lemma scan_match_Inr:
  "scan_match maxd st l [g1, g2] = Inr st' \<longleftrightarrow>
     (\<exists>s f. py_int maxd g1 = Inr s \<and> py_int maxd g2 = Inr f \<and>
        st' = \<lparr>sc_durations = sc_durations st @ [max 0 (f - s)],
               sc_earliest = Some (case sc_earliest st of None \<Rightarrow> s | Some e \<Rightarrow> min e s),
               sc_latest = Some (case sc_latest st of None \<Rightarrow> f | Some l \<Rightarrow> max l f),
               sc_lines = sc_lines st @ [rewrite_line l (max 0 (f - s))]\<rparr>)"
  by (cases "py_int maxd g1"; cases "py_int maxd g2") (auto simp: scan_match_def ebind_def Let_def)

lemma scan_match_Inl:
  "scan_match maxd st l [g1, g2] = Inl e \<longleftrightarrow>
     (py_int maxd g1 = Inl e \<or> (\<exists>s. py_int maxd g1 = Inr s \<and> py_int maxd g2 = Inl e))"
  by (cases "py_int maxd g1"; cases "py_int maxd g2") (auto simp: scan_match_def ebind_def Let_def)

lemma scan_line_same_stats:
  assumes "same_stats a b"
  shows "(\<forall>e. scan_line maxd a l = Inl e \<longrightarrow> scan_line maxd b l = Inl e) \<and>
         (\<forall>a'. scan_line maxd a l = Inr a' \<longrightarrow> (\<exists>b'. scan_line maxd b l = Inr b' \<and> same_stats a' b'))"
proof (cases "matched l")
  case False
  then show ?thesis using assms by (simp add: scan_line_unmatched same_stats_def)
next
  case True
  from scan_line_matched[OF True] obtain g1 g2 where
    g: "\<forall>maxd st. scan_line maxd st l = scan_match maxd st l [g1, g2]" by blast
  show ?thesis using assms unfolding g[rule_format] scan_match_Inr scan_match_Inl
    by (auto simp: same_stats_def)
qed





lemma scan_line_lines:
  "scan_line maxd st l = Inr st' \<Longrightarrow>
     \<exists>x. sc_lines st' = sc_lines st @ [x] \<and> (\<not> matched l \<longrightarrow> x = l) \<and>
         length (sc_durations st') = length (sc_durations st) + (if matched l then 1 else 0)"
proof (cases "matched l")
  case False
  assume "scan_line maxd st l = Inr st'"
  with False show ?thesis by (auto simp: scan_line_unmatched)
next
  case True
  assume h: "scan_line maxd st l = Inr st'"
  from scan_line_matched[OF True] obtain g1 g2 where
    g: "\<forall>maxd st. scan_line maxd st l = scan_match maxd st l [g1, g2]" by blast
  from h show ?thesis unfolding g[rule_format] scan_match_Inr using True by auto
qed

lemma scan_lines_lines:
  "scan_lines maxd st ls = Inr st' \<Longrightarrow>
     \<exists>xs. sc_lines st' = sc_lines st @ xs \<and> length xs = length ls \<and>
          (\<forall>i < length ls. \<not> matched (ls ! i) \<longrightarrow> xs ! i = ls ! i) \<and>
          length (sc_durations st') = length (sc_durations st) + length (filter matched ls)"
proof (induction ls arbitrary: st)
  case Nil
  then show ?case by simp
next
  case (Cons l ls)
  from Cons(2) obtain st1 where st1: "scan_line maxd st l = Inr st1" "scan_lines maxd st1 ls = Inr st'"
    by (auto split: sum.splits)
  from scan_line_lines[OF st1(1)] obtain x where x: "sc_lines st1 = sc_lines st @ [x]"
    "\<not> matched l \<longrightarrow> x = l"
    "length (sc_durations st1) = length (sc_durations st) + (if matched l then 1 else 0)" by blast
  from Cons(1)[OF st1(2)] obtain xs where xs: "sc_lines st' = sc_lines st1 @ xs" "length xs = length ls"
    "\<forall>i < length ls. \<not> matched (ls ! i) \<longrightarrow> xs ! i = ls ! i"
    "length (sc_durations st') = length (sc_durations st1) + length (filter matched ls)" by blast
  have "\<forall>i < length (l # ls). \<not> matched ((l # ls) ! i) \<longrightarrow> (x # xs) ! i = (l # ls) ! i"
    using x(2) xs(3) by (auto simp: nth_Cons split: nat.splits)
  moreover have "sc_lines st' = sc_lines st @ (x # xs)" using x(1) xs(1) by simp
  moreover have "length (x # xs) = length (l # ls)" using xs(2) by simp
  moreover have "length (sc_durations st') = length (sc_durations st) + length (filter matched (l # ls))"
    using x(3) xs(4) by simp
  ultimately show ?case by blast
qed

lemma scan_lines_filter:
  "scan_lines maxd a ls = Inr a' \<Longrightarrow> same_stats a b \<Longrightarrow>
     \<exists>b'. scan_lines maxd b (filter matched ls) = Inr b' \<and> same_stats a' b'"
proof (induction ls arbitrary: a b)
  case Nil
  then show ?case by simp
next
  case (Cons l ls)
  from Cons(2) obtain a1 where a1: "scan_line maxd a l = Inr a1" "scan_lines maxd a1 ls = Inr a'"
    by (auto split: sum.splits)
  show ?case
  proof (cases "matched l")
    case False
    then have "same_stats a1 b" using a1(1) Cons(3) by (auto simp: scan_line_unmatched same_stats_def)
    from Cons(1)[OF a1(2) this] False show ?thesis by simp
  next
    case True
    from scan_line_same_stats[OF Cons(3), of maxd l] a1(1)
    obtain b1 where b1: "scan_line maxd b l = Inr b1" "same_stats a1 b1" by blast
    from Cons(1)[OF a1(2) b1(2)] b1(1) True show ?thesis by simp
  qed
qed











lemma finish_same_stats:
  assumes "same_stats a b" "total_of a = total_of b"
  shows "map_sum id (\<lambda>r. r\<lparr>ann_lines := []\<rparr>) (finish total_of a)
       = map_sum id (\<lambda>r. r\<lparr>ann_lines := []\<rparr>) (finish total_of b)"
  using assms by (simp add: finish_def same_stats_def Let_def ebind_def split: sum.splits)

lemma total_evol_same: "same_stats a b \<Longrightarrow> total_evol a = total_evol b"
  by (simp add: total_evol_def same_stats_def)

lemma total_balanced_same: "same_stats a b \<Longrightarrow> total_balanced a = total_balanced b"
  by (simp add: total_balanced_def same_stats_def)

lemma finish_fields:
  "finish total_of st = Inr r \<Longrightarrow>
     durations r = sc_durations st \<and> num_edges r = length (sc_durations st) \<and>
     total_latency_ms r = total_of st \<and> ann_lines r = sc_lines st"
  by (auto simp: finish_def Let_def ebind_def split: sum.splits)





section \<open>The statistics of concrete texts\<close>

lemma lines_two_edges:
  "splitlines two_edges =
     [''[A starts at 0 ms, finishes at 100 ms].'', ''[B starts at 50 ms, finishes at 80 ms].'']"
  by code_simp

lemma nonblank_two_edges:
  "filter strip_nonempty [''[A starts at 0 ms, finishes at 100 ms].'', ''[B starts at 50 ms, finishes at 80 ms].'']
     = [''[A starts at 0 ms, finishes at 100 ms].'', ''[B starts at 50 ms, finishes at 80 ms].'']"
  by code_simp

lemma scan_two_edges:
  "scan_lines 4300 scan_init
     [''[A starts at 0 ms, finishes at 100 ms].'', ''[B starts at 50 ms, finishes at 80 ms].''] =
   Inr \<lparr>sc_durations = [100, 30], sc_earliest = Some 0, sc_latest = Some 100,
        sc_lines = [''[A starts at 0 ms, finishes at 100 ms, duration=100 ms].'',
                    ''[B starts at 50 ms, finishes at 80 ms, duration=30 ms].'']\<rparr>"
  by code_simp

lemma lines_blank:
  "splitlines blank_line_text = [''a'', [], ''[B starts at 1 ms, finishes at 3 ms]'']"
  by code_simp

lemma nonblank_blank:
  "filter strip_nonempty [''a'', [], ''[B starts at 1 ms, finishes at 3 ms]'']
     = [''a'', ''[B starts at 1 ms, finishes at 3 ms]'']"
  by code_simp

lemma scan_blank_evol:
  "scan_lines 4300 scan_init [''a'', [], ''[B starts at 1 ms, finishes at 3 ms]''] =
   Inr \<lparr>sc_durations = [2], sc_earliest = Some 1, sc_latest = Some 3,
        sc_lines = [''a'', [], ''[B starts at 1 ms, finishes at 3 ms, duration=2 ms]'']\<rparr>"
  by code_simp

lemma scan_blank_balanced:
  "scan_lines 4300 scan_init [''a'', ''[B starts at 1 ms, finishes at 3 ms]''] =
   Inr \<lparr>sc_durations = [2], sc_earliest = Some 1, sc_latest = Some 3,
        sc_lines = [''a'', ''[B starts at 1 ms, finishes at 3 ms, duration=2 ms]'']\<rparr>"
  by code_simp

lemma matched_blank:
  "filter matched [''a'', ''[B starts at 1 ms, finishes at 3 ms]''] = [''[B starts at 1 ms, finishes at 3 ms]'']"
  by code_simp

lemma finish_empty:
  assumes "sc_durations st = []"
  shows "finish total_of st =
     Inr \<lparr>durations = [], num_edges = 0, total_latency_ms = total_of st,
          max_edge_latency_ms = 0, mean_edge_latency_ms = 0, p95_edge_latency_ms = 0,
          max_edge_ratio = 0, bottleneck_index = - 1, ann_lines = sc_lines st\<rparr>"
proof -
  have "max_ratio_of 0 (total_of st) = Inr 0"
    using max_ratio_of_returns[of 0 "total_of st"] by (simp add: round_frac_def)
  then show ?thesis using assms
    by (simp add: finish_def Let_def mx_of_eq avg_of_Nil p95_of_Nil b_idx_of_def ebind_def)
qed

lemma finish_small:
  assumes "sc_durations st = ds" "ds \<noteq> []" "\<forall>d \<in> set ds. 0 \<le> d" "sum_list ds < 2 ^ 53"
    "length ds < 2 ^ 48" "Max (set ds) \<le> total_of st" "b_idx_of ds (Max (set ds)) = Inr k"
  shows "finish total_of st =
     Inr \<lparr>durations = ds, num_edges = length ds, total_latency_ms = total_of st,
          max_edge_latency_ms = Max (set ds),
          mean_edge_latency_ms = sum_list ds div int (length ds),
          p95_edge_latency_ms = sort ds ! nat (\<lceil>(19 * of_nat (length ds) :: rat) / 20\<rceil> - 1),
          max_edge_ratio = (if 0 < total_of st then round_frac (nat (Max (set ds))) (nat (total_of st)) else 0),
          bottleneck_index = k, ann_lines = sc_lines st\<rparr>"
proof -
  have m: "mx_of ds = Inr (Max (set ds))" using assms(2) by (simp add: mx_of_eq)
  have "0 \<le> sum_list ds" using assms(3) by (intro sum_list_nonneg) simp
  from avg_of_small[OF assms(2) this assms(4)] have a: "avg_of ds = Inr (sum_list ds div int (length ds))" .
  note p = p95_of_exact[OF assms(2,5)]
  have "Max (set ds) \<in> set ds" using assms(2) Max_in[of "set ds"] by simp
  with assms(3) have "0 \<le> Max (set ds)" by blast
  from max_ratio_of_returns[OF this] assms(6)
  have q: "max_ratio_of (Max (set ds)) (total_of st) =
             Inr (if 0 < total_of st then round_frac (nat (Max (set ds))) (nat (total_of st)) else 0)"
    by blast
  show ?thesis by (simp only: finish_def Let_def assms(1) m a p q assms(7) ebind_def sum.case)
qed

lemma evol_two_edges:
  "parse_trace_and_stats_evol 4300 two_edges =
     Inr \<lparr>durations = [100, 30], num_edges = 2, total_latency_ms = 130,
          max_edge_latency_ms = 100, mean_edge_latency_ms = 65, p95_edge_latency_ms = 100,
          max_edge_ratio = round_frac 100 130, bottleneck_index = 0,
          ann_lines = [''[A starts at 0 ms, finishes at 100 ms, duration=100 ms].'',
                       ''[B starts at 50 ms, finishes at 80 ms, duration=30 ms].'']\<rparr>"
proof -
  let ?st = "\<lparr>sc_durations = [100, 30], sc_earliest = Some 0, sc_latest = Some 100,
        sc_lines = [''[A starts at 0 ms, finishes at 100 ms, duration=100 ms].'',
                    ''[B starts at 50 ms, finishes at 80 ms, duration=30 ms].'']\<rparr>"
  have t: "total_evol ?st = 130" by (simp add: total_evol_def truthy_def)
  have c: "\<lceil>(19 / 10 :: rat)\<rceil> = 2"
    by (rule ceiling_unique) simp_all
  have "finish total_evol ?st = Inr \<lparr>durations = [100, 30], num_edges = 2, total_latency_ms = 130,
          max_edge_latency_ms = 100, mean_edge_latency_ms = 65, p95_edge_latency_ms = 100,
          max_edge_ratio = round_frac 100 130, bottleneck_index = 0,
          ann_lines = sc_lines ?st\<rparr>"
    by (subst finish_small[where ds = "[100, 30]" and k = 0])
       (simp_all add: t c b_idx_of_def py_index_def)
  then show ?thesis
    by (simp only: parse_trace_and_stats_evol_def lines_two_edges scan_two_edges ebind_def sum.case scan.simps)
qed

lemma balanced_two_edges:
  "parse_trace_and_stats_balanced 4300 two_edges =
     Inr \<lparr>durations = [100, 30], num_edges = 2, total_latency_ms = 100,
          max_edge_latency_ms = 100, mean_edge_latency_ms = 65, p95_edge_latency_ms = 100,
          max_edge_ratio = 1, bottleneck_index = 0,
          ann_lines = [''[A starts at 0 ms, finishes at 100 ms, duration=100 ms].'',
                       ''[B starts at 50 ms, finishes at 80 ms, duration=30 ms].'']\<rparr>"
proof -
  let ?st = "\<lparr>sc_durations = [100, 30], sc_earliest = Some 0, sc_latest = Some 100,
        sc_lines = [''[A starts at 0 ms, finishes at 100 ms, duration=100 ms].'',
                    ''[B starts at 50 ms, finishes at 80 ms, duration=30 ms].'']\<rparr>"
  have t: "total_balanced ?st = 100" by (simp add: total_balanced_def span_ok_def wall_clock_def)
  have c: "\<lceil>(19 / 10 :: rat)\<rceil> = 2"
    by (rule ceiling_unique) simp_all
  have r: "round_frac 100 100 = 1" using round_frac_exact_div[of 100 100] by simp
  have "finish total_balanced ?st = Inr \<lparr>durations = [100, 30], num_edges = 2, total_latency_ms = 100,
          max_edge_latency_ms = 100, mean_edge_latency_ms = 65, p95_edge_latency_ms = 100,
          max_edge_ratio = 1, bottleneck_index = 0,
          ann_lines = sc_lines ?st\<rparr>"
    by (subst finish_small[where ds = "[100, 30]" and k = 0])
       (simp_all add: t c r b_idx_of_def py_index_def)
  then show ?thesis
    by (simp only: parse_trace_and_stats_balanced_def lines_two_edges nonblank_two_edges
                  scan_two_edges ebind_def sum.case scan.simps)
qed


section \<open>Total latency\<close>

text \<open>
  C1. \<open>total_latency_ms\<close> is the latest finish minus the earliest start, floored at 0, when a
  line matched, and the sum of the durations otherwise; for the edges \<open>[0, 100]\<close> and
  \<open>[50, 80]\<close> it is 100. In trace_evol.py the test is \<open>earliest and latest and \<dots>\<close>, so an
  earliest start of 0 counts as absent and the sum 130 is returned.
\<close>

theorem total_latency_evol_start_zero:
  "map_sum id total_latency_ms (parse_trace_and_stats_evol 4300 two_edges) = Inr 130"
  by (simp add: evol_two_edges)


section \<open>The two implementations\<close>

text \<open>
  C3. The two implementations compute the same seven statistics on every text. On the two
  edges \<open>[0, 100]\<close> and \<open>[50, 80]\<close> trace_evol.py reports a total of 130 and a ratio below 1,
  build_balanced_testset.py a total of 100 and a ratio of 1.
\<close>

theorem implementations_differ:
  "map_sum id total_latency_ms (parse_trace_and_stats_evol 4300 two_edges) = Inr 130 \<and>
   map_sum id total_latency_ms (parse_trace_and_stats_balanced 4300 two_edges) = Inr 100 \<and>
   map_sum id max_edge_ratio (parse_trace_and_stats_balanced 4300 two_edges) = Inr 1 \<and>
   map_sum id max_edge_ratio (parse_trace_and_stats_evol 4300 two_edges) = Inr (round_frac 100 130) \<and>
   round_frac 100 130 < 1"
proof -
  have "round_frac 100 130 \<le> of_int 7 * pow2 (- 3)"
  proof (rule round_frac_le_grid)
    show "(0::nat) < 100" by simp
    show "(of_nat 100 :: rat) / of_nat 130 \<le> of_int 7 * pow2 (- 3)" by (simp add: pow2_def)
    have "(of_nat 100 :: rat) / of_nat 130 < pow2 0" by (simp add: pow2_def)
    from fexp_le[OF _ _ this] show "fexp 100 130 \<le> - 3" by simp
  qed
  then have "round_frac 100 130 < 1" by (simp add: pow2_def)
  then show ?thesis by (simp add: evol_two_edges balanced_two_edges)
qed

section \<open>Lines that are not edges\<close>

lemma annotate_lines_Inr:
  "annotate_lines maxd total_of ls = Inr r \<longleftrightarrow>
     (\<exists>st. scan_lines maxd scan_init ls = Inr st \<and> finish total_of st = Inr r)"
  by (cases "scan_lines maxd scan_init ls") (simp_all add: annotate_lines_def ebind_def)


lemma parse_evol_lines:
  "parse_trace_and_stats_evol maxd txt = annotate_lines maxd total_evol (splitlines txt)"
  by (simp add: parse_trace_and_stats_evol_def annotate_lines_def)

lemma parse_balanced_lines:
  "parse_trace_and_stats_balanced maxd txt =
     annotate_lines maxd total_balanced (filter strip_nonempty (splitlines txt))"
  by (simp add: parse_trace_and_stats_balanced_def annotate_lines_def)

lemma matched_startswith: "matched l \<Longrightarrow> startswith l ''['' \<and> re_search START_FINISH_RE l \<noteq> None"
  by (simp add: matched_def is_candidate_def)

lemma annotate_passes:
  assumes same: "\<And>a b. same_stats a b \<Longrightarrow> total_of a = total_of b"
      and r: "annotate_lines maxd total_of ls = Inr r"
  shows "passes_through maxd total_of ls r"
proof -
  from r obtain st where st: "scan_lines maxd scan_init ls = Inr st" "finish total_of st = Inr r"
    unfolding annotate_lines_Inr by blast
  from scan_lines_lines[OF st(1)] obtain xs where xs: "sc_lines st = xs" "length xs = length ls"
    "\<forall>i < length ls. \<not> matched (ls ! i) \<longrightarrow> xs ! i = ls ! i"
    "length (sc_durations st) = length (filter matched ls)"
    by (auto simp: scan_init_def)
  note f = finish_fields[OF st(2)]
  have a: "length (ann_lines r) = length ls" using f xs by simp
  have b: "\<forall>i < length ls.
          \<not> (startswith (ls ! i) ''['' \<and> re_search START_FINISH_RE (ls ! i) \<noteq> None) \<longrightarrow>
          ann_lines r ! i = ls ! i"
  proof (intro allI impI)
    fix i assume i: "i < length ls"
      and n: "\<not> (startswith (ls ! i) ''['' \<and> re_search START_FINISH_RE (ls ! i) \<noteq> None)"
    from n matched_startswith[of "ls ! i"] have "\<not> matched (ls ! i)" by blast
    with xs(3) i have "xs ! i = ls ! i" by blast
    then show "ann_lines r ! i = ls ! i" using f xs(1) by simp
  qed
  have c: "num_edges r = length (filter matched ls)" using f xs(4) by simp
  have "same_stats scan_init scan_init" by (simp add: same_stats_def)
  from scan_lines_filter[OF st(1) this] obtain st2 where
    st2: "scan_lines maxd scan_init (filter matched ls) = Inr st2" "same_stats st st2" by blast
  from finish_same_stats[OF st2(2) same[OF st2(2)]]
  have "map_sum id (\<lambda>r. r\<lparr>ann_lines := []\<rparr>) (finish total_of st2) = Inr (r\<lparr>ann_lines := []\<rparr>)"
    by (simp add: st(2))
  then have d: "map_sum id (\<lambda>r. r\<lparr>ann_lines := []\<rparr>) (annotate_lines maxd total_of (filter matched ls))
                 = Inr (r\<lparr>ann_lines := []\<rparr>)"
    by (simp add: annotate_lines_def st2(1) ebind_def)
  from a b c d show ?thesis unfolding passes_through_def by blast
qed

lemma balanced_blank:
  "parse_trace_and_stats_balanced 4300 blank_line_text =
     Inr \<lparr>durations = [2], num_edges = 1, total_latency_ms = 2,
          max_edge_latency_ms = 2, mean_edge_latency_ms = 2, p95_edge_latency_ms = 2,
          max_edge_ratio = 1, bottleneck_index = 0,
          ann_lines = [''a'', ''[B starts at 1 ms, finishes at 3 ms, duration=2 ms]'']\<rparr>"
proof -
  let ?st = "\<lparr>sc_durations = [2], sc_earliest = Some 1, sc_latest = Some 3,
        sc_lines = [''a'', ''[B starts at 1 ms, finishes at 3 ms, duration=2 ms]'']\<rparr>"
  have t: "total_balanced ?st = 2" by (simp add: total_balanced_def span_ok_def wall_clock_def)
  have c: "\<lceil>(19 / 20 :: rat)\<rceil> = 1"
    by (rule ceiling_unique) simp_all
  have r: "round_frac 2 2 = 1" using round_frac_exact_div[of 2 2] by simp
  have "finish total_balanced ?st = Inr \<lparr>durations = [2], num_edges = 1, total_latency_ms = 2,
          max_edge_latency_ms = 2, mean_edge_latency_ms = 2, p95_edge_latency_ms = 2,
          max_edge_ratio = 1, bottleneck_index = 0,
          ann_lines = sc_lines ?st\<rparr>"
    by (subst finish_small[where ds = "[2]" and k = 0])
       (simp_all add: t c r b_idx_of_def py_index_def)
  then show ?thesis
    by (simp only: parse_trace_and_stats_balanced_def lines_blank nonblank_blank
                  scan_blank_balanced ebind_def sum.case scan.simps)
qed


text \<open>
  C5, as stated: every line that does not both begin with \<open>[\<close> and match the pattern is in
  the output, unchanged and at its original position. build_balanced_testset.py discards
  the lines that hold nothing but white space before the loop: of the three lines below
  the second is not in its output, and the third is at position 1.
\<close>

theorem blank_line_dropped:
  "splitlines blank_line_text = [''a'', [], ''[B starts at 1 ms, finishes at 3 ms]''] \<and>
   map_sum id ann_lines (parse_trace_and_stats_balanced 4300 blank_line_text) =
     Inr [''a'', ''[B starts at 1 ms, finishes at 3 ms, duration=2 ms]'']"
  by (simp add: lines_blank balanced_blank)


text \<open>
  C5, amended. In trace_evol.py every line that does not both begin with \<open>[\<close> and match the
  pattern is in the output, unchanged and at its original position; in
  build_balanced_testset.py the same holds of the lines left after the white-space-only
  lines are discarded. In both, the edges counted are the matched lines, and the other
  lines contribute to no statistic: the text without them has the same statistics.
\<close>

theorem unmatched_lines_pass_through:
  "(parse_trace_and_stats_evol maxd txt = Inr r \<longrightarrow>
      passes_through maxd total_evol (splitlines txt) r) \<and>
   (parse_trace_and_stats_balanced maxd txt = Inr r \<longrightarrow>
      passes_through maxd total_balanced (filter strip_nonempty (splitlines txt)) r)"
  unfolding parse_evol_lines parse_balanced_lines
  by (intro conjI impI annotate_passes total_evol_same total_balanced_same)


theorem unmatched_lines_pass_through_witness:
  "parse_trace_and_stats_balanced 4300 blank_line_text =
     Inr \<lparr>durations = [2], num_edges = 1, total_latency_ms = 2,
          max_edge_latency_ms = 2, mean_edge_latency_ms = 2, p95_edge_latency_ms = 2,
          max_edge_ratio = 1, bottleneck_index = 0,
          ann_lines = [''a'', ''[B starts at 1 ms, finishes at 3 ms, duration=2 ms]'']\<rparr> \<and>
   passes_through 4300 total_balanced (filter strip_nonempty (splitlines blank_line_text))
     \<lparr>durations = [2], num_edges = 1, total_latency_ms = 2,
      max_edge_latency_ms = 2, mean_edge_latency_ms = 2, p95_edge_latency_ms = 2,
      max_edge_ratio = 1, bottleneck_index = 0,
      ann_lines = [''a'', ''[B starts at 1 ms, finishes at 3 ms, duration=2 ms]'']\<rparr>"
  using unmatched_lines_pass_through[of 4300 blank_line_text] balanced_blank by blast



section \<open>Termination without an exception\<close>
























section \<open>Rewriting of a matched line\<close>

text \<open>
  C6. A matched line is rewritten with \<open>duration = max(0, finish - start)\<close>, and its closing
  \<open>].\<close> or \<open>]\<close> is to be replaced by the annotation followed by the same closing. The test
  for the closing is made on \<open>line.rstrip()\<close> but the slice is taken from \<open>line\<close> itself: on
  a line that ends with \<open>].\<close> and one blank, the two characters removed are the full stop and
  the blank, the bracket stays, and the output has two closing brackets.
\<close>

theorem rewrite_line_trailing_blank:
  "scan_line 4300 scan_init (''[A starts at 1 ms, finishes at 3 ms].'' @ '' '') =
     Inr \<lparr>sc_durations = [2], sc_earliest = Some 1, sc_latest = Some 3,
          sc_lines = [''[A starts at 1 ms, finishes at 3 ms], duration=2 ms].'']\<rparr>"
  by code_simp

end
